theory Spec2Isabelle
  imports Main "HOL-Library.Signed_Division"
begin

section \<open>The ring buffer of \<^verbatim>\<open>ring_buffer.c\<close>\<close>

text \<open>
  The C structure \<^verbatim>\<open>RingBuffer\<close> has a pointer to the storage and three \<^verbatim>\<open>int\<close>
  fields. The storage object is modelled by the list of its bytes (C's \<^verbatim>\<open>char\<close> is
  the 8-bit type \<^typ>\<open>char\<close>), the fields \<^verbatim>\<open>length\<close> and \<^verbatim>\<open>end\<close> carry the suffix
  \<open>_rb\<close> because the plain names are taken.
\<close>

record RingBuffer =
  buffer :: string
  length_rb :: int
  start :: int
  end_rb :: int

subsection \<open>The type \<^verbatim>\<open>int\<close>\<close>

text \<open>
  \<^verbatim>\<open>int\<close> has 32 bits. Its values are integers between \<open>-2^31\<close> and \<open>2^31 - 1\<close>,
  and every \<^verbatim>\<open>+\<close> and \<^verbatim>\<open>-\<close> of the source on \<^verbatim>\<open>int\<close> operands is followed by \<open>i32\<close>, which
  wraps the result into that range as two's complement hardware does (the overflow
  itself is undefined in C). The operator \<^verbatim>\<open>%\<close> truncates towards zero and is \<open>smod\<close>;
  its result needs no wrapping. Offsets added to a pointer are not \<^verbatim>\<open>int\<close> arithmetic
  and are not wrapped.
\<close>

definition i32 :: "int \<Rightarrow> int" where
  "i32 x = (x + 2147483648) mod 4294967296 - 2147483648"

subsection \<open>Memory\<close>

text \<open>
  \<^verbatim>\<open>memcpy(dst + d, src + s, n)\<close> on two distinct objects. The behaviour of C is
  undefined when the copied range leaves one of the objects, or when the count is
  negative (it is converted to a huge \<^verbatim>\<open>size_t\<close>); the model reports that as a fault.
  Otherwise the destination object is returned with the \<open>n\<close> bytes replaced.
  \<^verbatim>\<open>memcpy\<close> returns its destination pointer, which is never \<^verbatim>\<open>NULL\<close> here, so the
  branches of the source that test the result for \<^verbatim>\<open>NULL\<close> are dead and have no
  counterpart below. Allocation is taken to succeed: \<^verbatim>\<open>calloc(n, 1)\<close> is a fresh object
  of \<open>n\<close> zero bytes.
\<close>

datatype fault = OutOfBounds

definition memcpy :: "string \<Rightarrow> int \<Rightarrow> string \<Rightarrow> int \<Rightarrow> int \<Rightarrow> fault + string" where
  "memcpy dst d src s n =
     (if n < 0 \<or> d < 0 \<or> s < 0 \<or> int (length dst) < d + n \<or> int (length src) < s + n
      then Inl OutOfBounds
      else Inr (take (nat d) dst @ take (nat n) (drop (nat s) src) @ drop (nat (d + n)) dst))"

definition calloc :: "int \<Rightarrow> string" where
  "calloc n = replicate (nat n) (CHR 0x00)"

subsection \<open>Creation and the space helpers\<close>

definition RingBuffer_create :: "int \<Rightarrow> RingBuffer" where
  "RingBuffer_create n =
     \<lparr>buffer = calloc n, length_rb = n, start = n, end_rb = n\<rparr>"

definition RingBuffer_used_space :: "RingBuffer \<Rightarrow> int" where
  "RingBuffer_used_space b =
     (if start b = length_rb b then 0
      else i32 (i32 (i32 (length_rb b + end_rb b) - start b) smod length_rb b + 1))"

definition RingBuffer_available_space :: "RingBuffer \<Rightarrow> int" where
  "RingBuffer_available_space b =
     (if start b = length_rb b then length_rb b
      else i32 (length_rb b -
             i32 (i32 (i32 (length_rb b + end_rb b) - start b) smod length_rb b + 1)))"

definition RingBuffer_dist_to_end :: "RingBuffer \<Rightarrow> int" where
  "RingBuffer_dist_to_end b =
     (if start b = length_rb b then length_rb b
      else if start b > end_rb b then i32 (i32 (start b - end_rb b) - 1)
      else i32 (i32 (length_rb b - end_rb b) - 1))"

definition RingBuffer_clear :: "RingBuffer \<Rightarrow> RingBuffer" where
  "RingBuffer_clear b = b\<lparr>start := length_rb b, end_rb := length_rb b\<rparr>"

subsection \<open>Writing\<close>

text \<open>
  The result of a write is the returned \<^verbatim>\<open>int\<close> (\<open>-1\<close> on rejection, otherwise the number
  of bytes) and the buffer after the call. \<open>overwrite_shift\<close> is the statement
  \<^verbatim>\<open>if(length > openSpace) buffer->start = (buffer->start + (length - openSpace)) % buffer->length;\<close>
  that ends both branches of the non-empty case.
\<close>

definition overwrite_shift :: "int \<Rightarrow> int \<Rightarrow> RingBuffer \<Rightarrow> RingBuffer" where
  "overwrite_shift len openSpace b =
     (if len > openSpace
      then b\<lparr>start := i32 (start b + i32 (len - openSpace)) smod length_rb b\<rparr>
      else b)"

definition RingBuffer_write :: "RingBuffer \<Rightarrow> string \<Rightarrow> int \<Rightarrow> fault + (int \<times> RingBuffer)" where
  "RingBuffer_write b data len =
     (if length_rb b < len then Inr (- 1, b)
      else
        let openSpace = RingBuffer_available_space b in
        if start b = length_rb b then
          (case memcpy (buffer b) 0 data 0 len of
             Inl e \<Rightarrow> Inl e
           | Inr m \<Rightarrow> Inr (len, b\<lparr>buffer := m, start := 0, end_rb := i32 (len - 1)\<rparr>))
        else
          let physRemains = RingBuffer_dist_to_end b in
          if physRemains < len then
            (case memcpy (buffer b) (end_rb b + 1) data 0 physRemains of
               Inl e \<Rightarrow> Inl e
             | Inr m1 \<Rightarrow>
                 (case memcpy m1 0 data physRemains (i32 (len - physRemains)) of
                    Inl e \<Rightarrow> Inl e
                  | Inr m2 \<Rightarrow>
                      Inr (len, overwrite_shift len openSpace
                        (b\<lparr>buffer := m2, end_rb := i32 (end_rb b + len) smod length_rb b\<rparr>))))
          else
            (case memcpy (buffer b) (end_rb b + 1) data 0 len of
               Inl e \<Rightarrow> Inl e
             | Inr m \<Rightarrow>
                 Inr (len, overwrite_shift len openSpace
                   (b\<lparr>buffer := m, end_rb := i32 (end_rb b + len)\<rparr>))))"

definition RingBuffer_safe_write :: "RingBuffer \<Rightarrow> string \<Rightarrow> int \<Rightarrow> fault + (int \<times> RingBuffer)" where
  "RingBuffer_safe_write b data len =
     (if RingBuffer_available_space b < len then Inr (- 1, b)
      else RingBuffer_write b data len)"

subsection \<open>Reading\<close>

text \<open>
  The result of a pop is the returned pointer (\<open>None\<close> for \<^verbatim>\<open>NULL\<close>, otherwise the
  freshly allocated bytes) and the buffer after the call.
\<close>

definition pop_copy :: "RingBuffer \<Rightarrow> int \<Rightarrow> fault + string" where
  "pop_copy b len =
     (let data = calloc len;
          physRemains = RingBuffer_dist_to_end b
      in if physRemains < len then
           (case memcpy data 0 (buffer b) (start b) (i32 (physRemains + 1)) of
              Inl e \<Rightarrow> Inl e
            | Inr d1 \<Rightarrow>
                memcpy d1 (physRemains + 1) (buffer b) 0 (i32 (i32 (len - physRemains) - 1)))
         else memcpy data 0 (buffer b) (start b) len)"

definition pop_advance :: "RingBuffer \<Rightarrow> int \<Rightarrow> RingBuffer" where
  "pop_advance b len =
     (let b1 = b\<lparr>start := i32 (start b + len) smod length_rb b\<rparr>
      in if len \<noteq> 0 \<and> start b1 = i32 (end_rb b1 + 1)
         then b1\<lparr>start := length_rb b1, end_rb := length_rb b1\<rparr>
         else b1)"

definition RingBuffer_pop :: "RingBuffer \<Rightarrow> int \<Rightarrow> fault + (string option \<times> RingBuffer)" where
  "RingBuffer_pop b n =
     (let len = (if RingBuffer_used_space b < n then RingBuffer_used_space b else n) in
      if start b = length_rb b then Inr (None, b)
      else
        (case pop_copy b len of
           Inl e \<Rightarrow> Inl e
         | Inr d \<Rightarrow> Inr (Some d, pop_advance b len)))"

subsection \<open>Sequences of public calls\<close>

datatype call = Write string int | SafeWrite string int | Pop int | Clear

fun step :: "RingBuffer \<Rightarrow> call \<Rightarrow> fault + RingBuffer" where
  "step b (Write data len) = map_sum id snd (RingBuffer_write b data len)"
| "step b (SafeWrite data len) = map_sum id snd (RingBuffer_safe_write b data len)"
| "step b (Pop n) = map_sum id snd (RingBuffer_pop b n)"
| "step b Clear = Inr (RingBuffer_clear b)"

fun run :: "RingBuffer \<Rightarrow> call list \<Rightarrow> fault + RingBuffer" where
  "run b [] = Inr b"
| "run b (c # cs) = (case step b c of Inl e \<Rightarrow> Inl e | Inr b' \<Rightarrow> run b' cs)"

subsection \<open>Invariants\<close>

text \<open>
  \<open>sentinel_inv\<close> is the invariant of the data model: the indices are either both the
  sentinel or both valid positions. \<open>ring_inv\<close> is what the code maintains: the storage
  has the size of the capacity, the capacity is a positive \<^verbatim>\<open>int\<close>, and a non-empty
  buffer may also have \<open>end = -1\<close>. \<open>MAX_CAPACITY\<close> is \<open>2^30\<close>, the largest capacity for
  which no sum of the source leaves the range of \<^verbatim>\<open>int\<close>.
\<close>

definition sentinel_inv :: "RingBuffer \<Rightarrow> bool" where
  "sentinel_inv b \<longleftrightarrow>
     (start b = length_rb b \<and> end_rb b = length_rb b) \<or>
     (0 \<le> start b \<and> start b < length_rb b \<and> 0 \<le> end_rb b \<and> end_rb b < length_rb b)"

definition ring_inv :: "RingBuffer \<Rightarrow> bool" where
  "ring_inv b \<longleftrightarrow>
     0 < length_rb b \<and> length_rb b \<le> 2147483647 \<and>
     int (length (buffer b)) = length_rb b \<and>
     ((start b = length_rb b \<and> end_rb b = length_rb b) \<or>
      (0 \<le> start b \<and> start b < length_rb b \<and> - 1 \<le> end_rb b \<and> end_rb b < length_rb b))"

definition MAX_CAPACITY :: int where
  "MAX_CAPACITY = 1073741824"

text \<open>A call that is not a write of zero bytes.\<close>

definition nonzero_write :: "call \<Rightarrow> bool" where
  "nonzero_write c = (case c of Write d n \<Rightarrow> n \<noteq> 0 | SafeWrite d n \<Rightarrow> n \<noteq> 0 | Pop n \<Rightarrow> True | Clear \<Rightarrow> True)"

section \<open>Basic facts\<close>

text \<open>
  \<open>i32\<close> leaves a value of the range alone, and on non-negative operands the truncating
  \<^verbatim>\<open>%\<close> of C is the usual remainder. On a state satisfying \<open>ring_inv\<close> whose capacity
  is at most \<open>MAX_CAPACITY\<close> no operation of the source wraps, which gives the helpers a
  closed form.
\<close>

lemma i32_id: "- 2147483648 \<le> x \<Longrightarrow> x < 2147483648 \<Longrightarrow> i32 x = x"
  by (simp add: i32_def)

lemma smod_nonneg: "0 \<le> a \<Longrightarrow> 0 < b \<Longrightarrow> (a::int) smod b = a mod b"
  by (simp add: signed_modulo_int_def sgn_if)

lemma smod_range: "0 \<le> a \<Longrightarrow> 0 < b \<Longrightarrow> 0 \<le> (a::int) smod b \<and> a smod b < b"
  by (simp add: smod_nonneg)

lemma mod_once: "0 \<le> x \<Longrightarrow> x < 2 * c \<Longrightarrow> (x::int) mod c = (if x < c then x else x - c)"
proof (cases "x < c")
  case True
  assume "0 \<le> x"
  with True show ?thesis by simp
next
  case False
  assume "0 \<le> x" "x < 2 * c"
  with False have "(x - c) mod c = x - c" by (intro mod_pos_pos_trivial) simp_all
  with False show ?thesis by simp
qed

lemma smod_once:
  "0 \<le> x \<Longrightarrow> x < 2 * c \<Longrightarrow> 0 < c \<Longrightarrow> (x::int) smod c = (if x < c then x else x - c)"
  by (simp only: smod_nonneg mod_once)

lemma memcpy_length: "memcpy dst d src s n = Inr m \<Longrightarrow> length m = length dst"
  by (auto simp: memcpy_def split: if_splits)

lemma memcpy_nonneg: "memcpy dst d src s n = Inr m \<Longrightarrow> 0 \<le> n"
  by (auto simp: memcpy_def split: if_splits)

lemma overwrite_shift_fields:
  "length_rb (overwrite_shift len sp b) = length_rb b"
  "buffer (overwrite_shift len sp b) = buffer b"
  "end_rb (overwrite_shift len sp b) = end_rb b"
  by (simp_all add: overwrite_shift_def)

lemma write_length_rb:
  "RingBuffer_write b data len = Inr (r, b') \<Longrightarrow> length_rb b' = length_rb b"
  by (auto simp: RingBuffer_write_def Let_def overwrite_shift_fields split: if_splits sum.splits)

lemma write_buffer_length:
  "RingBuffer_write b data len = Inr (r, b') \<Longrightarrow> length (buffer b') = length (buffer b)"
  by (auto simp: RingBuffer_write_def Let_def overwrite_shift_fields
      split: if_splits sum.splits dest!: memcpy_length)

lemma pop_length_rb:
  "RingBuffer_pop b n = Inr (r, b') \<Longrightarrow> length_rb b' = length_rb b"
  by (auto simp: RingBuffer_pop_def pop_advance_def Let_def split: if_splits sum.splits)

lemma step_length_rb: "step b c = Inr b' \<Longrightarrow> length_rb b' = length_rb b"
  by (cases c) (auto simp: map_sum_def RingBuffer_safe_write_def RingBuffer_clear_def
      split: sum.splits if_splits dest: write_length_rb pop_length_rb)


lemma ring_inv_indices:
  assumes "ring_inv b" and "start b \<noteq> length_rb b"
  shows "0 \<le> start b" "start b < length_rb b" "- 1 \<le> end_rb b" "end_rb b < length_rb b"
    "0 < length_rb b" "length_rb b \<le> 2147483647" "int (length (buffer b)) = length_rb b"
  using assms by (auto simp: ring_inv_def)

lemma dist_to_end_closed:
  assumes "ring_inv b" and "start b \<noteq> length_rb b"
  shows "RingBuffer_dist_to_end b =
           (if start b > end_rb b then start b - end_rb b - 1 else length_rb b - end_rb b - 1)"
  using ring_inv_indices [OF assms] assms(2)
  by (simp add: RingBuffer_dist_to_end_def i32_id)

lemma dist_to_end_nonneg: "ring_inv b \<Longrightarrow> 0 \<le> RingBuffer_dist_to_end b"
  by (cases "start b = length_rb b")
     (auto simp: dist_to_end_closed, auto simp: ring_inv_def RingBuffer_dist_to_end_def)

lemma used_space_closed:
  assumes inv: "ring_inv b" and small: "length_rb b \<le> MAX_CAPACITY"
    and ne: "start b \<noteq> length_rb b"
  shows "RingBuffer_used_space b =
           (if start b \<le> end_rb b then end_rb b - start b + 1
            else length_rb b + end_rb b - start b + 1)"
proof -
  note idx = ring_inv_indices [OF inv ne]
  from small have s: "length_rb b \<le> 1073741824" by (simp add: MAX_CAPACITY_def)
  from idx s have w: "i32 (i32 (length_rb b + end_rb b) - start b) = length_rb b + end_rb b - start b"
    by (simp add: i32_id)
  from idx have "(length_rb b + end_rb b - start b) smod length_rb b =
      (if length_rb b + end_rb b - start b < length_rb b then length_rb b + end_rb b - start b
       else length_rb b + end_rb b - start b - length_rb b)"
    by (intro smod_once) simp_all
  with ne w idx s show ?thesis by (simp add: RingBuffer_used_space_def i32_id)
qed

lemma used_space_range:
  assumes "ring_inv b" and "length_rb b \<le> MAX_CAPACITY"
  shows "0 \<le> RingBuffer_used_space b \<and> RingBuffer_used_space b \<le> length_rb b"
proof (cases "start b = length_rb b")
  case True
  with assms(1) show ?thesis by (simp add: RingBuffer_used_space_def ring_inv_def)
next
  case False
  from ring_inv_indices [OF assms(1) False] used_space_closed [OF assms False]
  show ?thesis by (auto split: if_splits)
qed

lemma used_space_pos:
  assumes "ring_inv b" and "length_rb b \<le> MAX_CAPACITY" and "start b \<noteq> length_rb b"
  shows "0 < RingBuffer_used_space b"
  using ring_inv_indices [OF assms(1,3)] used_space_closed [OF assms]
  by (auto split: if_splits)

lemma available_space_used:
  assumes inv: "ring_inv b" and small: "length_rb b \<le> MAX_CAPACITY"
  shows "RingBuffer_available_space b = length_rb b - RingBuffer_used_space b"
proof (cases "start b = length_rb b")
  case True
  then show ?thesis by (simp add: RingBuffer_available_space_def RingBuffer_used_space_def)
next
  case False
  note idx = ring_inv_indices [OF inv False]
  from small have s: "length_rb b \<le> 1073741824" by (simp add: MAX_CAPACITY_def)
  let ?x = "i32 (i32 (i32 (length_rb b + end_rb b) - start b) smod length_rb b + 1)"
  have u: "RingBuffer_used_space b = ?x" using False by (simp add: RingBuffer_used_space_def)
  from used_space_range [OF inv small] u have "0 \<le> ?x" "?x \<le> length_rb b" by simp_all
  with idx s have "i32 (length_rb b - ?x) = length_rb b - ?x" by (intro i32_id) simp_all
  with u False show ?thesis by (simp add: RingBuffer_available_space_def)
qed

text \<open>
  What a successful write does to the indices, and the preservation of \<open>ring_inv\<close> by
  every call, for capacities up to \<open>MAX_CAPACITY\<close>.
\<close>

lemma write_empty:
  assumes "start b = length_rb b" and "len \<le> length_rb b"
    and "RingBuffer_write b data len = Inr (r, b')"
  shows "r = len" and "start b' = 0" and "end_rb b' = i32 (len - 1)" and "0 \<le> len"
  using assms
  by (auto simp: RingBuffer_write_def Let_def split: if_splits sum.splits dest: memcpy_nonneg)

lemma write_nonempty:
  assumes "start b \<noteq> length_rb b" and "len \<le> length_rb b"
    and "RingBuffer_write b data len = Inr (r, b')"
  shows "r = len"
    and "end_rb b' = (if RingBuffer_dist_to_end b < len
                      then i32 (end_rb b + len) smod length_rb b else i32 (end_rb b + len))"
    and "start b' = (if RingBuffer_available_space b < len
                     then i32 (start b + i32 (len - RingBuffer_available_space b)) smod length_rb b
                     else start b)"
  using assms
  by (auto simp: RingBuffer_write_def Let_def overwrite_shift_def split: if_splits sum.splits)

lemma write_nonneg:
  assumes "ring_inv b" and "len \<le> length_rb b" and "RingBuffer_write b data len = Inr (r, b')"
  shows "0 \<le> len"
  using assms dist_to_end_nonneg [OF assms(1)]
  by (auto simp: RingBuffer_write_def Let_def split: if_splits sum.splits dest: memcpy_nonneg)

text \<open>The indices after a write into a non-empty buffer of capacity at most \<open>MAX_CAPACITY\<close>.\<close>

lemma write_nonempty_closed:
  assumes inv: "ring_inv b" and small: "length_rb b \<le> MAX_CAPACITY"
    and ne: "start b \<noteq> length_rb b" and cap: "len \<le> length_rb b"
    and w: "RingBuffer_write b data len = Inr (r, b')"
  shows "end_rb b' = (if RingBuffer_dist_to_end b < len
                      then (if end_rb b + len < length_rb b then end_rb b + len
                            else end_rb b + len - length_rb b)
                      else end_rb b + len)"
    and "start b' = (if RingBuffer_available_space b < len
                     then (start b + (len - RingBuffer_available_space b)) mod length_rb b
                     else start b)"
    and "RingBuffer_available_space b < len \<Longrightarrow>
         start b' = (if start b + (len - RingBuffer_available_space b) < length_rb b
                     then start b + (len - RingBuffer_available_space b)
                     else start b + (len - RingBuffer_available_space b) - length_rb b)"
proof -
  note idx = ring_inv_indices [OF inv ne]
  from small have s: "length_rb b \<le> 1073741824" by (simp add: MAX_CAPACITY_def)
  note r = write_nonempty [OF ne cap w]
  from write_nonneg [OF inv cap w] have nn: "0 \<le> len" .
  from idx s nn cap have e: "i32 (end_rb b + len) = end_rb b + len" by (intro i32_id) simp_all
  show "end_rb b' = (if RingBuffer_dist_to_end b < len
                      then (if end_rb b + len < length_rb b then end_rb b + len
                            else end_rb b + len - length_rb b)
                      else end_rb b + len)"
  proof (cases "RingBuffer_dist_to_end b < len")
    case True
    with dist_to_end_nonneg [OF inv] have "0 < len" by simp
    with idx cap have "0 \<le> end_rb b + len" "end_rb b + len < 2 * length_rb b" by simp_all
    with r(2) True idx e show ?thesis by (simp only: smod_once if_True)
  next
    case False
    with r(2) e show ?thesis by simp
  qed
  let ?a = "RingBuffer_available_space b"
  from available_space_used [OF inv small] used_space_range [OF inv small]
  have a: "0 \<le> ?a" "?a \<le> length_rb b" by simp_all
  from a nn cap s have d: "i32 (len - ?a) = len - ?a" by (intro i32_id) simp_all
  have sr: "0 \<le> start b + (len - ?a)" "start b + (len - ?a) < 2 * length_rb b" if "?a < len"
    using that idx a cap by simp_all
  have st: "i32 (start b + (len - ?a)) = start b + (len - ?a)" if "?a < len"
    using sr [OF that] s idx by (intro i32_id) simp_all
  show "start b' = (if ?a < len then (start b + (len - ?a)) mod length_rb b else start b)"
    using r(3) d st sr idx by (simp add: smod_nonneg)
  show "start b' = (if start b + (len - ?a) < length_rb b then start b + (len - ?a)
                    else start b + (len - ?a) - length_rb b)" if "?a < len"
    using r(3) d st [OF that] sr [OF that] idx that by (simp only: smod_once if_True)
qed

lemma write_ring_inv:
  assumes inv: "ring_inv b" and small: "length_rb b \<le> MAX_CAPACITY"
    and w: "RingBuffer_write b data len = Inr (r, b')"
  shows "ring_inv b'"
proof (cases "length_rb b < len")
  case True
  with w inv show ?thesis by (simp add: RingBuffer_write_def)
next
  case False
  then have cap: "len \<le> length_rb b" by simp
  from inv have g: "0 < length_rb b" "length_rb b \<le> 2147483647"
    "int (length (buffer b)) = length_rb b"
    by (simp_all add: ring_inv_def)
  note l = write_length_rb [OF w] write_buffer_length [OF w]
  from write_nonneg [OF inv cap w] have nn: "0 \<le> len" .
  show ?thesis
  proof (cases "start b = length_rb b")
    case True
    note r = write_empty [OF True cap w]
    from nn cap g have "i32 (len - 1) = len - 1" by (intro i32_id) simp_all
    with r nn cap g l show ?thesis by (simp add: ring_inv_def)
  next
    case ne: False
    note idx = ring_inv_indices [OF inv ne]
    note c = write_nonempty_closed [OF inv small ne cap w]
    have e: "- 1 \<le> end_rb b' \<and> end_rb b' < length_rb b"
      using c(1) idx nn cap dist_to_end_closed [OF inv ne]
      by (auto split: if_splits)
    have s: "0 \<le> start b' \<and> start b' < length_rb b"
      using c(2) idx by (auto split: if_splits)
    from e s g l show ?thesis by (simp add: ring_inv_def)
  qed
qed

lemma safe_write_ring_inv:
  "ring_inv b \<Longrightarrow> length_rb b \<le> MAX_CAPACITY \<Longrightarrow>
   RingBuffer_safe_write b data len = Inr (r, b') \<Longrightarrow> ring_inv b'"
  by (auto simp: RingBuffer_safe_write_def split: if_splits dest: write_ring_inv)

lemma pop_copy_nonneg: "pop_copy b len = Inr d \<Longrightarrow> ring_inv b \<Longrightarrow> 0 \<le> len"
  using dist_to_end_nonneg [of b]
  by (auto simp: pop_copy_def Let_def split: if_splits sum.splits dest: memcpy_nonneg)

lemma pop_advance_ring_inv:
  assumes inv: "ring_inv b" and small: "length_rb b \<le> MAX_CAPACITY"
    and ne: "start b \<noteq> length_rb b" and len: "0 \<le> len" "len \<le> length_rb b"
  shows "ring_inv (pop_advance b len)"
proof -
  note idx = ring_inv_indices [OF inv ne]
  from small have s: "length_rb b \<le> 1073741824" by (simp add: MAX_CAPACITY_def)
  from idx s len have "i32 (start b + len) = start b + len" by (intro i32_id) simp_all
  moreover from idx len have "0 \<le> (start b + len) smod length_rb b \<and>
      (start b + len) smod length_rb b < length_rb b"
    by (intro smod_range) simp_all
  ultimately show ?thesis using idx
    by (auto simp: ring_inv_def pop_advance_def Let_def)
qed

lemma pop_ring_inv:
  assumes inv: "ring_inv b" and small: "length_rb b \<le> MAX_CAPACITY"
    and p: "RingBuffer_pop b n = Inr (r, b')"
  shows "ring_inv b'"
proof (cases "start b = length_rb b")
  case True
  with p inv show ?thesis by (simp add: RingBuffer_pop_def Let_def)
next
  case False
  let ?len = "if RingBuffer_used_space b < n then RingBuffer_used_space b else n"
  from p False obtain d where c: "pop_copy b ?len = Inr d" and b': "b' = pop_advance b ?len"
    by (auto simp: RingBuffer_pop_def Let_def split: sum.splits)
  from pop_copy_nonneg [OF c inv] have "0 \<le> ?len" .
  moreover from used_space_range [OF inv small] have "?len \<le> length_rb b" by auto
  ultimately show ?thesis unfolding b' by (rule pop_advance_ring_inv [OF inv small False])
qed

lemma clear_ring_inv: "ring_inv b \<Longrightarrow> ring_inv (RingBuffer_clear b)"
  by (simp add: ring_inv_def RingBuffer_clear_def)

lemma create_ring_inv: "0 < n \<Longrightarrow> n \<le> MAX_CAPACITY \<Longrightarrow> ring_inv (RingBuffer_create n)"
  by (simp add: ring_inv_def RingBuffer_create_def calloc_def MAX_CAPACITY_def)

lemma step_ring_inv:
  "ring_inv b \<Longrightarrow> length_rb b \<le> MAX_CAPACITY \<Longrightarrow> step b c = Inr b' \<Longrightarrow> ring_inv b'"
  by (cases c) (auto simp: map_sum_def split: sum.splits
      dest: write_ring_inv safe_write_ring_inv pop_ring_inv intro: clear_ring_inv)



lemma write_never_minus_one:
  assumes "len \<le> length_rb b"
  shows "RingBuffer_write b data len \<noteq> Inr (- 1, b')"
proof
  assume w: "RingBuffer_write b data len = Inr (- 1, b')"
  with assms have "len = - 1"
    by (auto simp: RingBuffer_write_def Let_def split: if_splits sum.splits)
  with w assms show False
    by (auto simp: RingBuffer_write_def Let_def split: if_splits sum.splits dest: memcpy_nonneg)
qed

lemma write_succeeds:
  assumes inv: "ring_inv b" and len: "0 \<le> len" "len \<le> length_rb b" "len \<le> int (length data)"
  shows "\<exists>b'. RingBuffer_write b data len = Inr (len, b')"
proof (cases "start b = length_rb b")
  case True
  with inv len show ?thesis
    by (simp add: RingBuffer_write_def ring_inv_def memcpy_def)
next
  case nonempty: False
  note idx = ring_inv_indices [OF inv nonempty]
  let ?p = "RingBuffer_dist_to_end b"
  from idx dist_to_end_closed [OF inv nonempty]
  have p: "0 \<le> ?p" "end_rb b + 1 + ?p \<le> length_rb b"
    by (auto split: if_splits)
  show ?thesis
  proof (cases "?p < len")
    case True
    with p idx len obtain m1 where
      m1: "memcpy (buffer b) (end_rb b + 1) data 0 ?p = Inr m1"
      by (auto simp: memcpy_def)
    from memcpy_length [OF m1] idx have lm: "int (length m1) = length_rb b" by simp
    from True p len idx have "i32 (len - ?p) = len - ?p" by (intro i32_id) simp_all
    with lm True p len obtain m2 where
      m2: "memcpy m1 0 data ?p (i32 (len - ?p)) = Inr m2"
      by (auto simp: memcpy_def)
    from m1 m2 True nonempty len show ?thesis
      by (simp add: RingBuffer_write_def Let_def)
  next
    case False
    with p idx len obtain m where
      m: "memcpy (buffer b) (end_rb b + 1) data 0 len = Inr m"
      by (auto simp: memcpy_def)
    with False nonempty len show ?thesis
      by (simp add: RingBuffer_write_def Let_def)
  qed
qed

section \<open>Further facts about the two paths\<close>

text \<open>
  Above \<open>MAX_CAPACITY\<close> the sum \<^verbatim>\<open>length + end\<close> of the two space helpers leaves the range
  of \<^verbatim>\<open>int\<close>: a full buffer of capacity \<open>2^30 + 1\<close> reports a negative used space, and
  with capacity \<open>2^31 - 1\<close> and four bytes written the two helpers do not add up to the
  capacity.
\<close>

lemma space_helpers_overflow:
  "RingBuffer_used_space \<lparr>buffer = m, length_rb = 1073741825, start = 0, end_rb = 1073741824\<rparr>
     = - 1073741821"
  "RingBuffer_available_space \<lparr>buffer = m, length_rb = 1073741825, start = 0, end_rb = 1073741824\<rparr>
     = 2147483646"
  "RingBuffer_used_space \<lparr>buffer = m, length_rb = 2147483647, start = 0, end_rb = 3\<rparr>
     = - 2147483645"
  "RingBuffer_available_space \<lparr>buffer = m, length_rb = 2147483647, start = 0, end_rb = 3\<rparr>
     = - 4"
  by (simp_all add: RingBuffer_used_space_def RingBuffer_available_space_def i32_def
      signed_modulo_int_def)

text \<open>
  A write that fits into the free room drops nothing: used space grows by the length
  (for a non-empty buffer, or a positive length).
\<close>

lemma write_fitting_used:
  assumes inv: "ring_inv b" and small: "length_rb b \<le> MAX_CAPACITY"
    and fit: "\<not> RingBuffer_available_space b < len"
    and w: "RingBuffer_write b data len = Inr (r, b')"
    and ok: "start b \<noteq> length_rb b \<or> 0 < len"
  shows "RingBuffer_used_space b' = RingBuffer_used_space b + len"
proof -
  note a = available_space_used [OF inv small]
  from fit a used_space_range [OF inv small] have cap: "len \<le> length_rb b" by simp
  from write_ring_inv [OF inv small w] have inv': "ring_inv b'" .
  from write_length_rb [OF w] have l': "length_rb b' = length_rb b" .
  with small have small': "length_rb b' \<le> MAX_CAPACITY" by simp
  from write_nonneg [OF inv cap w] have nn: "0 \<le> len" .
  show ?thesis
  proof (cases "start b = length_rb b")
    case True
    with ok have pos: "0 < len" by simp
    note r = write_empty [OF True cap w]
    from inv have g: "0 < length_rb b" "length_rb b \<le> 2147483647" by (simp_all add: ring_inv_def)
    from pos cap g have e: "i32 (len - 1) = len - 1" by (intro i32_id) simp_all
    from g r(2) have "start b' \<noteq> length_rb b'" using l' by simp
    from used_space_closed [OF inv' small' this] r e pos True show ?thesis
      by (simp add: RingBuffer_used_space_def)
  next
    case nonempty: False
    note idx = ring_inv_indices [OF inv nonempty]
    note u = used_space_closed [OF inv small nonempty]
    note c = write_nonempty_closed [OF inv small nonempty cap w]
    from c(2) fit have s': "start b' = start b" by simp
    with nonempty l' have ne': "start b' \<noteq> length_rb b'" by simp
    note u' = used_space_closed [OF inv' small' ne']
    note d = dist_to_end_closed [OF inv nonempty]
    show ?thesis
      unfolding u' l' using s' c(1) d u a fit idx nn
      by (auto split: if_splits)
  qed
qed

text \<open>
  The indices after a write that does not fit into the free room: the write returns the
  length, \<open>start\<close> advances by \<open>length - available_space\<close> modulo the capacity, and used
  space becomes \<open>min(used_before + length, capacity)\<close>. Nothing is said here about where
  the bytes go.
\<close>

lemma write_overwrite_shift_indices:
  assumes inv: "ring_inv b" and small: "length_rb b \<le> MAX_CAPACITY"
    and len: "len \<le> length_rb b" "RingBuffer_available_space b < len"
    and data: "len \<le> int (length data)"
  shows "\<exists>b'. RingBuffer_write b data len = Inr (len, b') \<and>
           start b' = (start b + (len - RingBuffer_available_space b)) mod length_rb b \<and>
           RingBuffer_used_space b' = min (RingBuffer_used_space b + len) (length_rb b)"
proof -
  note a = available_space_used [OF inv small]
  note ur = used_space_range [OF inv small]
  from len a ur have nonempty: "start b \<noteq> length_rb b"
    by (auto simp: RingBuffer_available_space_def)
  note idx = ring_inv_indices [OF inv nonempty]
  note u = used_space_closed [OF inv small nonempty]
  from ur a len have pos: "0 < len" by simp
  with write_succeeds [OF inv _ len(1) data] obtain b' where
    w: "RingBuffer_write b data len = Inr (len, b')" by auto
  note c = write_nonempty_closed [OF inv small nonempty len(1) w]
  from write_ring_inv [OF inv small w] have inv': "ring_inv b'" .
  from write_length_rb [OF w] have l': "length_rb b' = length_rb b" .
  with small have small': "length_rb b' \<le> MAX_CAPACITY" by simp
  note s'' = c(3) [OF len(2)]
  from s'' idx a ur len have ne': "start b' \<noteq> length_rb b'" using l' by (auto split: if_splits)
  note u' = used_space_closed [OF inv' small' ne']
  note d = dist_to_end_closed [OF inv nonempty]
  have "RingBuffer_used_space b' = length_rb b"
    unfolding u' l' using s'' c(1) d u a len idx
    by (auto split: if_splits)
  moreover from a len have "min (RingBuffer_used_space b + len) (length_rb b) = length_rb b"
    by simp
  moreover from c(2) len have "start b' = (start b + (len - RingBuffer_available_space b)) mod length_rb b"
    by simp
  ultimately show ?thesis using w by simp
qed

text \<open>
  As long as no write of zero bytes is made, every reachable state satisfies the
  invariant of the data model.
\<close>

lemma sentinel_inv_iff: "ring_inv b \<Longrightarrow> sentinel_inv b \<longleftrightarrow> end_rb b \<noteq> - 1"
  by (auto simp: ring_inv_def sentinel_inv_def)

lemma write_end_not_minus_one:
  assumes inv: "ring_inv b" and small: "length_rb b \<le> MAX_CAPACITY"
    and e: "end_rb b \<noteq> - 1" and n: "len \<noteq> 0"
    and w: "RingBuffer_write b data len = Inr (r, b')"
  shows "end_rb b' \<noteq> - 1"
proof (cases "length_rb b < len")
  case True
  with w e show ?thesis by (simp add: RingBuffer_write_def)
next
  case False
  then have cap: "len \<le> length_rb b" by simp
  from write_nonneg [OF inv cap w] n have pos: "0 < len" by simp
  from inv have g: "0 < length_rb b" "length_rb b \<le> 2147483647" by (simp_all add: ring_inv_def)
  show ?thesis
  proof (cases "start b = length_rb b")
    case True
    from pos cap g have "i32 (len - 1) = len - 1" by (intro i32_id) simp_all
    with write_empty(3) [OF True cap w] pos show ?thesis by simp
  next
    case nonempty: False
    note idx = ring_inv_indices [OF inv nonempty]
    from write_nonempty_closed(1) [OF inv small nonempty cap w] idx e pos show ?thesis
      by (auto split: if_splits)
  qed
qed

lemma pop_end_not_minus_one:
  "ring_inv b \<Longrightarrow> end_rb b \<noteq> - 1 \<Longrightarrow> RingBuffer_pop b n = Inr (r, b') \<Longrightarrow> end_rb b' \<noteq> - 1"
  by (auto simp: RingBuffer_pop_def pop_advance_def Let_def ring_inv_def split: if_splits sum.splits)

lemma step_sentinel_inv:
  assumes inv: "ring_inv b" and small: "length_rb b \<le> MAX_CAPACITY"
    and s: "sentinel_inv b" and nz: "nonzero_write c" and st: "step b c = Inr b'"
  shows "sentinel_inv b'"
proof -
  from s inv have e: "end_rb b \<noteq> - 1" by (simp add: sentinel_inv_iff)
  from step_ring_inv [OF inv small st] have inv': "ring_inv b'" .
  have "end_rb b' \<noteq> - 1"
  proof (cases c)
    case (Write d n)
    with st nz inv small e show ?thesis
      by (auto simp: nonzero_write_def map_sum_def split: sum.splits dest: write_end_not_minus_one)
  next
    case (SafeWrite d n)
    with st nz inv small e show ?thesis
      by (auto simp: nonzero_write_def map_sum_def RingBuffer_safe_write_def
          split: sum.splits if_splits dest: write_end_not_minus_one)
  next
    case (Pop n)
    with st inv e show ?thesis
      by (auto simp: map_sum_def split: sum.splits dest: pop_end_not_minus_one)
  next
    case Clear
    with st inv show ?thesis by (auto simp: RingBuffer_clear_def ring_inv_def)
  qed
  with inv' show ?thesis by (simp add: sentinel_inv_iff)
qed

lemma run_sentinel_inv:
  "ring_inv b \<Longrightarrow> length_rb b \<le> MAX_CAPACITY \<Longrightarrow> sentinel_inv b \<Longrightarrow>
   list_all nonzero_write cs \<Longrightarrow> run b cs = Inr b' \<Longrightarrow> sentinel_inv b'"
proof (induction cs arbitrary: b)
  case Nil
  then show ?case by simp
next
  case (Cons c cs)
  from Cons.prems(5) obtain b1 where st: "step b c = Inr b1" and r: "run b1 cs = Inr b'"
    by (auto split: sum.splits)
  from Cons.prems have nz: "nonzero_write c" "list_all nonzero_write cs" by simp_all
  from step_length_rb [OF st] Cons.prems(2) have m: "length_rb b1 \<le> MAX_CAPACITY" by simp
  from Cons.IH [OF step_ring_inv [OF Cons.prems(1,2) st] m
      step_sentinel_inv [OF Cons.prems(1,2,3) nz(1) st] nz(2) r]
  show ?case .
qed

lemma reachable_sentinel_inv:
  "0 < n \<Longrightarrow> n \<le> MAX_CAPACITY \<Longrightarrow> list_all nonzero_write cs \<Longrightarrow>
   run (RingBuffer_create n) cs = Inr b \<Longrightarrow> sentinel_inv b"
  by (rule run_sentinel_inv [OF create_ring_inv])
     (simp_all add: sentinel_inv_def RingBuffer_create_def)

text \<open>
  A successful pop returns as many bytes as were asked for, or all that are used if that
  is less. A pop of all used bytes collapses to the sentinel when \<open>end\<close> is not the
  last index of the storage.
\<close>

lemma pop_result_length:
  assumes "ring_inv b" and "RingBuffer_pop b n = Inr (Some d, b')"
  shows "int (length d) = min n (RingBuffer_used_space b)"
proof -
  let ?len = "if RingBuffer_used_space b < n then RingBuffer_used_space b else n"
  from assms(2) have c: "pop_copy b ?len = Inr d"
    by (auto simp: RingBuffer_pop_def Let_def split: if_splits sum.splits)
  from pop_copy_nonneg [OF c assms(1)] have nn: "0 \<le> ?len" .
  from c have "length d = length (calloc ?len)"
    by (auto simp: pop_copy_def Let_def split: if_splits sum.splits dest!: memcpy_length)
  with nn show ?thesis by (auto simp: calloc_def min_def)
qed

lemma pop_all_collapses:
  assumes inv: "ring_inv b" and small: "length_rb b \<le> MAX_CAPACITY"
    and ne: "start b \<noteq> length_rb b"
    and n: "RingBuffer_used_space b \<le> n" and e: "end_rb b \<noteq> length_rb b - 1"
    and p: "RingBuffer_pop b n = Inr (r, b')"
  shows "start b' = length_rb b \<and> end_rb b' = length_rb b"
proof -
  let ?u = "RingBuffer_used_space b"
  note idx = ring_inv_indices [OF inv ne]
  from small have s: "length_rb b \<le> 1073741824" by (simp add: MAX_CAPACITY_def)
  from n have len: "(if ?u < n then ?u else n) = ?u" by simp
  from p ne len have b': "b' = pop_advance b ?u"
    by (auto simp: RingBuffer_pop_def Let_def split: sum.splits)
  note u = used_space_closed [OF inv small ne]
  from used_space_pos [OF inv small ne] have pos: "?u \<noteq> 0" by simp
  from u idx have r: "0 \<le> start b + ?u" "start b + ?u < 2 * length_rb b"
    by (auto split: if_splits)
  with s have w: "i32 (start b + ?u) = start b + ?u" by (intro i32_id) simp_all
  from idx have w1: "i32 (end_rb b + 1) = end_rb b + 1" by (intro i32_id) simp_all
  from r have "(start b + ?u) smod length_rb b =
      (if start b + ?u < length_rb b then start b + ?u else start b + ?u - length_rb b)"
    using idx by (simp only: smod_once)
  with u e idx have "(start b + ?u) smod length_rb b = end_rb b + 1"
    by (auto split: if_splits)
  with b' pos w w1 show ?thesis by (simp add: pop_advance_def Let_def)
qed

text \<open>
  Writing \<open>k\<close> bytes into an empty buffer and popping \<open>k\<close> returns the bytes when
  \<open>2 * k \<le> capacity + 1\<close>.
\<close>

lemma memcpy_whole_prefix:
  assumes "int (length src) \<le> int (length dst)"
  shows "memcpy dst 0 src 0 (int (length src)) = Inr (src @ drop (length src) dst)"
  using assms by (simp add: memcpy_def)

lemma memcpy_nothing:
  "0 \<le> d \<Longrightarrow> d \<le> int (length dst) \<Longrightarrow> memcpy dst d src 0 0 = Inr dst"
  by (simp add: memcpy_def)

lemma round_trip_half:
  assumes inv: "ring_inv b" and small: "length_rb b \<le> MAX_CAPACITY"
    and empty: "start b = length_rb b"
    and k: "1 \<le> k" "int (length D) = k" "2 * k \<le> length_rb b + 1"
  shows "\<exists>b1 b2. RingBuffer_write b D k = Inr (k, b1) \<and> RingBuffer_pop b1 k = Inr (Some D, b2)"
proof -
  from inv have cap: "0 < length_rb b" "int (length (buffer b)) = length_rb b"
    "length_rb b \<le> 2147483647"
    by (simp_all add: ring_inv_def)
  from k have kc: "k \<le> length_rb b" by simp
  from k kc cap have k1: "i32 (k - 1) = k - 1" by (intro i32_id) simp_all
  let ?m = "D @ drop (length D) (buffer b)"
  let ?b1 = "b\<lparr>buffer := ?m, start := 0, end_rb := k - 1\<rparr>"
  from k kc cap have m: "memcpy (buffer b) 0 D 0 k = Inr ?m"
    using memcpy_whole_prefix [of D "buffer b"] by simp
  with empty kc k1 have w: "RingBuffer_write b D k = Inr (k, ?b1)"
    by (simp add: RingBuffer_write_def)
  from write_ring_inv [OF inv small w] have inv1: "ring_inv ?b1" .
  from small have small1: "length_rb ?b1 \<le> MAX_CAPACITY" by simp
  from cap k have ne: "start ?b1 \<noteq> length_rb ?b1" by simp
  from used_space_closed [OF inv1 small1 ne] k have u: "RingBuffer_used_space ?b1 = k" by simp
  from dist_to_end_closed [OF inv1 ne] k have d: "RingBuffer_dist_to_end ?b1 = length_rb b - k"
    by simp
  have lm: "length ?m = length (buffer b)" using k kc cap by simp
  have tk: "take (nat k) ?m = D" using k by simp
  have c1: "memcpy (calloc k) 0 ?m 0 k = Inr D"
    using k kc cap lm tk by (simp add: memcpy_def calloc_def)
  have "pop_copy ?b1 k = Inr D"
  proof (cases "length_rb b - k < k")
    case True
    with k have eq: "length_rb b - k + 1 = k" "k - (length_rb b - k) = 1" by simp_all
    from k cap kc have ik: "i32 k = k" by (intro i32_id) simp_all
    have i0: "i32 (i32 1 - 1) = 0" by (simp add: i32_def)
    from k have c2: "memcpy D k ?m 0 0 = Inr D" by (intro memcpy_nothing) simp_all
    have "pop_copy ?b1 k =
        (case memcpy (calloc k) 0 ?m 0 (i32 (length_rb b - k + 1)) of
           Inl e \<Rightarrow> Inl e
         | Inr d1 \<Rightarrow> memcpy d1 (length_rb b - k + 1) (buffer ?b1) 0
                      (i32 (i32 (k - (length_rb b - k)) - 1)))"
      using True d by (simp add: pop_copy_def Let_def)
    also have "\<dots> = Inr D" unfolding eq ik i0 using c1 c2 by simp
    finally show ?thesis .
  next
    case False
    with c1 d show ?thesis by (simp add: pop_copy_def Let_def)
  qed
  with u ne have "RingBuffer_pop ?b1 k = Inr (Some D, pop_advance ?b1 k)"
    by (simp add: RingBuffer_pop_def)
  with w show ?thesis by blast
qed

text \<open>
  The wrap branch of the write continues at index 0 also when the free room ends at
  \<open>start\<close> and not at the physical end. In a buffer of capacity 4 holding \<open>c\<close>, \<open>d\<close>,
  \<open>e\<close> at indices 2, 3, 0, the write of \<open>"xy"\<close> puts \<open>x\<close> at index 1 and \<open>y\<close> at
  index 0, over \<open>e\<close>.
\<close>

lemma wrapped_write_misplaced:
  "run (RingBuffer_create 4) [Write ''abc'' 3, Pop 2, Write ''de'' 2]
     = Inr \<lparr>buffer = ''ebcd'', length_rb = 4, start = 2, end_rb = 0\<rparr> \<and>
   RingBuffer_dist_to_end \<lparr>buffer = ''ebcd'', length_rb = 4, start = 2, end_rb = 0\<rparr> = 1 \<and>
   RingBuffer_write \<lparr>buffer = ''ebcd'', length_rb = 4, start = 2, end_rb = 0\<rparr> ''xy'' 2
     = Inr (2, \<lparr>buffer = ''yxcd'', length_rb = 4, start = 3, end_rb = 2\<rparr>)"
  by code_simp

text \<open>
  The wrap branch of the pop copies \<open>physRemains + 1\<close> bytes from \<open>start\<close>, where
  \<open>physRemains\<close> is measured from \<open>end\<close>. In a buffer of capacity 5 holding three
  bytes at indices 3, 4, 0 that is a copy of three bytes from index 3, one byte past the
  storage.
\<close>

lemma pop_reads_past_storage:
  "run (RingBuffer_create 5) [Write ''abcde'' 5, Pop 3, Write ''f'' 1]
     = Inr \<lparr>buffer = ''fbcde'', length_rb = 5, start = 3, end_rb = 0\<rparr> \<and>
   RingBuffer_used_space \<lparr>buffer = ''fbcde'', length_rb = 5, start = 3, end_rb = 0\<rparr> = 3 \<and>
   RingBuffer_pop \<lparr>buffer = ''fbcde'', length_rb = 5, start = 3, end_rb = 0\<rparr> 3
     = Inl OutOfBounds"
  by code_simp

section \<open>The claims\<close>

text \<open>
  C1 at a failing input. After \<open>create(2)\<close>, \<open>write "ab"\<close> and \<open>pop(1)\<close> one byte is
  buffered. \<open>pop(5)\<close> asks for more than that and returns the one byte \<open>"b"\<close>, but the
  buffer is not empty afterwards: \<open>start\<close> wraps to 0, the test \<open>start == end + 1\<close>
  compares 0 with 2, and the buffer reports two used bytes.
\<close>

theorem pop_all_leaves_full:
  "run (RingBuffer_create 2) [Write ''ab'' 2, Pop 1]
     = Inr \<lparr>buffer = ''ab'', length_rb = 2, start = 1, end_rb = 1\<rparr> \<and>
   RingBuffer_used_space \<lparr>buffer = ''ab'', length_rb = 2, start = 1, end_rb = 1\<rparr> = 1 \<and>
   RingBuffer_pop \<lparr>buffer = ''ab'', length_rb = 2, start = 1, end_rb = 1\<rparr> 5
     = Inr (Some ''b'', \<lparr>buffer = ''ab'', length_rb = 2, start = 0, end_rb = 1\<rparr>) \<and>
   RingBuffer_used_space \<lparr>buffer = ''ab'', length_rb = 2, start = 0, end_rb = 1\<rparr> = 2"
  by code_simp

text \<open>
  C2 at a failing input. After \<open>create(5)\<close>, \<open>write "ab"\<close> and \<open>pop(1)\<close> the buffer
  holds \<open>"b"\<close> at index 1 and the distance to the end is 3. Writing \<open>"wxyz"\<close> (4 bytes,
  all of them fit) crosses the physical end. Popping the one earlier byte and then 4
  bytes returns \<open>"wxzb"\<close>, not \<open>"wxyz"\<close>.
\<close>

theorem wrapped_write_read_back_wrong:
  "run (RingBuffer_create 5) [Write ''ab'' 2, Pop 1]
     = Inr \<lparr>buffer = ''ab'' @ calloc 3, length_rb = 5, start = 1, end_rb = 1\<rparr> \<and>
   RingBuffer_dist_to_end \<lparr>buffer = ''ab'' @ calloc 3, length_rb = 5, start = 1, end_rb = 1\<rparr> = 3 \<and>
   RingBuffer_write \<lparr>buffer = ''ab'' @ calloc 3, length_rb = 5, start = 1, end_rb = 1\<rparr> ''wxyz'' 4
     = Inr (4, \<lparr>buffer = ''zbwxy'', length_rb = 5, start = 1, end_rb = 0\<rparr>) \<and>
   RingBuffer_pop \<lparr>buffer = ''zbwxy'', length_rb = 5, start = 1, end_rb = 0\<rparr> 1
     = Inr (Some ''b'', \<lparr>buffer = ''zbwxy'', length_rb = 5, start = 2, end_rb = 0\<rparr>) \<and>
   RingBuffer_pop \<lparr>buffer = ''zbwxy'', length_rb = 5, start = 2, end_rb = 0\<rparr> 4
     = Inr (Some ''wxzb'', \<lparr>buffer = ''zbwxy'', length_rb = 5, start = 5, end_rb = 5\<rparr>)"
  by code_simp

text \<open>
  C3 at a failing input. On an empty buffer of capacity 3, \<open>write "abc"\<close> followed by
  \<open>pop(3)\<close> returns \<open>"aab"\<close>, not \<open>"abc"\<close> (and leaves the buffer full).
\<close>

theorem round_trip_full_capacity_wrong:
  "RingBuffer_write (RingBuffer_create 3) ''abc'' 3
     = Inr (3, \<lparr>buffer = ''abc'', length_rb = 3, start = 0, end_rb = 2\<rparr>) \<and>
   RingBuffer_pop \<lparr>buffer = ''abc'', length_rb = 3, start = 0, end_rb = 2\<rparr> 3
     = Inr (Some ''aab'', \<lparr>buffer = ''abc'', length_rb = 3, start = 0, end_rb = 2\<rparr>)"
  by code_simp

text \<open>
  C4 at a failing input. A write of zero bytes into a fresh buffer of capacity 3 is
  accepted (it returns 0) and leaves \<open>start = 0\<close>, \<open>end = -1\<close>: neither the sentinel
  nor two valid positions. The buffer then reports three used bytes.
\<close>

theorem zero_length_write_breaks_sentinel:
  "RingBuffer_write (RingBuffer_create 3) [] 0
     = Inr (0, \<lparr>buffer = calloc 3, length_rb = 3, start = 0, end_rb = - 1\<rparr>) \<and>
   \<not> sentinel_inv \<lparr>buffer = calloc 3, length_rb = 3, start = 0, end_rb = - 1\<rparr> \<and>
   RingBuffer_used_space \<lparr>buffer = calloc 3, length_rb = 3, start = 0, end_rb = - 1\<rparr> = 3"
  by code_simp

text \<open>
  C5 at a failing input. After \<open>create(4)\<close>, \<open>write "abcd"\<close> and \<open>write "e"\<close> the storage
  is \<open>"ebcd"\<close> with \<open>start = 1\<close>, \<open>end = 0\<close>: the buffer holds \<open>b\<close>, \<open>c\<close>, \<open>d\<close>, \<open>e\<close>
  and nothing is free. A write of \<open>"f"\<close> (length 1, more than the available 0) should
  drop the one oldest byte \<open>b\<close> and leave \<open>c\<close>, \<open>d\<close>, \<open>e\<close>, \<open>f\<close>. The write
  returns 1 and moves \<open>start\<close> to 2 and \<open>end\<close> to 1, but it stores \<open>f\<close> at index 0, over
  the newest byte \<open>e\<close>; the oldest byte \<open>b\<close> stays at index 1, which is now the newest
  position. From \<open>start\<close> the storage \<open>"fbcd"\<close> reads \<open>c\<close>, \<open>d\<close>, \<open>f\<close>, \<open>b\<close>.
\<close>

theorem overwrite_clobbers_newest:
  "run (RingBuffer_create 4) [Write ''abcd'' 4, Write ''e'' 1]
     = Inr \<lparr>buffer = ''ebcd'', length_rb = 4, start = 1, end_rb = 0\<rparr> \<and>
   RingBuffer_available_space \<lparr>buffer = ''ebcd'', length_rb = 4, start = 1, end_rb = 0\<rparr> = 0 \<and>
   RingBuffer_write \<lparr>buffer = ''ebcd'', length_rb = 4, start = 1, end_rb = 0\<rparr> ''f'' 1
     = Inr (1, \<lparr>buffer = ''fbcd'', length_rb = 4, start = 2, end_rb = 1\<rparr>)"
  by code_simp

text \<open>
  C6 (amended). On a state satisfying the invariant, of capacity at most \<open>2^30\<close>,
  \<open>safe_write\<close> returns the rejection value \<open>-1\<close> exactly when
  \<open>available_space < length\<close>, and then the whole state is unchanged. Otherwise it is
  exactly \<open>write\<close>, which then never returns \<open>-1\<close>, succeeds when the length is
  non-negative and the source has that many bytes, and drops no old byte: it leaves
  \<open>start\<close> where it is on a non-empty buffer, moves it from the sentinel to 0 when a
  positive number of bytes goes into an empty buffer, and used space grows by exactly
  \<open>length\<close>. Nothing is said about the indices after a write of zero bytes into an
  empty buffer.
\<close>

theorem safe_write_spec:
  assumes inv: "ring_inv b" and small: "length_rb b \<le> MAX_CAPACITY"
  shows "(RingBuffer_available_space b < len \<longrightarrow>
            RingBuffer_safe_write b data len = Inr (- 1, b)) \<and>
         (\<not> RingBuffer_available_space b < len \<longrightarrow>
            RingBuffer_safe_write b data len = RingBuffer_write b data len \<and>
            (\<forall>b'. RingBuffer_write b data len \<noteq> Inr (- 1, b')) \<and>
            (0 \<le> len \<and> len \<le> int (length data) \<longrightarrow>
               (\<exists>b'. RingBuffer_write b data len = Inr (len, b'))) \<and>
            (\<forall>r b'. RingBuffer_write b data len = Inr (r, b') \<longrightarrow>
               r = len \<and>
               (start b \<noteq> length_rb b \<longrightarrow> start b' = start b) \<and>
               (start b = length_rb b \<and> 0 < len \<longrightarrow> start b' = 0) \<and>
               (start b \<noteq> length_rb b \<or> 0 < len \<longrightarrow>
                  RingBuffer_used_space b' = RingBuffer_used_space b + len)))"
proof (intro conjI impI allI)
  assume "RingBuffer_available_space b < len"
  then show "RingBuffer_safe_write b data len = Inr (- 1, b)"
    by (simp add: RingBuffer_safe_write_def)
next
  assume fit: "\<not> RingBuffer_available_space b < len"
  show "RingBuffer_safe_write b data len = RingBuffer_write b data len"
    using fit by (simp add: RingBuffer_safe_write_def)
next
  fix b'
  assume fit: "\<not> RingBuffer_available_space b < len"
  with available_space_used [OF inv small] used_space_range [OF inv small]
  have "len \<le> length_rb b" by simp
  then show "RingBuffer_write b data len \<noteq> Inr (- 1, b')" by (rule write_never_minus_one)
next
  assume fit: "\<not> RingBuffer_available_space b < len" and "0 \<le> len \<and> len \<le> int (length data)"
  moreover from fit available_space_used [OF inv small] used_space_range [OF inv small]
  have "len \<le> length_rb b" by simp
  ultimately show "\<exists>b'. RingBuffer_write b data len = Inr (len, b')"
    using write_succeeds [OF inv] by simp
next
  fix r b'
  assume fit: "\<not> RingBuffer_available_space b < len"
    and w: "RingBuffer_write b data len = Inr (r, b')"
  from fit available_space_used [OF inv small] used_space_range [OF inv small]
  have cap: "len \<le> length_rb b" by simp
  show "r = len"
    using write_empty(1) [OF _ cap w] write_nonempty(1) [OF _ cap w] by blast
  show "start b' = start b" if "start b \<noteq> length_rb b"
    using write_nonempty(3) [OF that cap w] fit by simp
  show "start b' = 0" if "start b = length_rb b \<and> 0 < len"
    using write_empty(2) [OF _ cap w] that by simp
  show "RingBuffer_used_space b' = RingBuffer_used_space b + len"
    if "start b \<noteq> length_rb b \<or> 0 < len"
    using write_fitting_used [OF inv small fit w that] .
qed

theorem safe_write_spec_witness:
  "ring_inv \<lparr>buffer = ''aab'', length_rb = 3, start = 0, end_rb = 2\<rparr> \<and>
   length_rb \<lparr>buffer = ''aab'', length_rb = 3, start = 0, end_rb = 2\<rparr> \<le> MAX_CAPACITY \<and>
   RingBuffer_available_space \<lparr>buffer = ''aab'', length_rb = 3, start = 0, end_rb = 2\<rparr> < 2 \<and>
   RingBuffer_safe_write \<lparr>buffer = ''aab'', length_rb = 3, start = 0, end_rb = 2\<rparr> ''xy'' 2
     = Inr (- 1, \<lparr>buffer = ''aab'', length_rb = 3, start = 0, end_rb = 2\<rparr>) \<and>
   ring_inv \<lparr>buffer = ''abc'', length_rb = 3, start = 0, end_rb = 0\<rparr> \<and>
   length_rb \<lparr>buffer = ''abc'', length_rb = 3, start = 0, end_rb = 0\<rparr> \<le> MAX_CAPACITY \<and>
   \<not> RingBuffer_available_space \<lparr>buffer = ''abc'', length_rb = 3, start = 0, end_rb = 0\<rparr> < 2 \<and>
   RingBuffer_safe_write \<lparr>buffer = ''abc'', length_rb = 3, start = 0, end_rb = 0\<rparr> ''xy'' 2
     = Inr (2, \<lparr>buffer = ''axy'', length_rb = 3, start = 0, end_rb = 2\<rparr>) \<and>
   RingBuffer_used_space \<lparr>buffer = ''axy'', length_rb = 3, start = 0, end_rb = 2\<rparr>
     = RingBuffer_used_space \<lparr>buffer = ''abc'', length_rb = 3, start = 0, end_rb = 0\<rparr> + 2"
proof -
  let ?full = "\<lparr>buffer = ''aab'', length_rb = 3, start = 0, end_rb = 2\<rparr>"
  let ?one = "\<lparr>buffer = ''abc'', length_rb = 3, start = 0, end_rb = 0\<rparr>"
  let ?three = "\<lparr>buffer = ''axy'', length_rb = 3, start = 0, end_rb = 2\<rparr>"
  have i: "ring_inv ?full" "ring_inv ?one" by (simp_all add: ring_inv_def)
  have m: "length_rb ?full \<le> MAX_CAPACITY" "length_rb ?one \<le> MAX_CAPACITY"
    by (simp_all add: MAX_CAPACITY_def)
  have a1: "RingBuffer_available_space ?full < 2" by code_simp
  have a2: "\<not> RingBuffer_available_space ?one < 2" by code_simp
  have w: "RingBuffer_write ?one ''xy'' 2 = Inr (2, ?three)"
    by code_simp
  have ne: "start ?one \<noteq> length_rb ?one \<or> (0::int) < 2" by simp
  from safe_write_spec [OF i(1) m(1), where len = 2 and data = "''xy''"] a1
  have r1: "RingBuffer_safe_write ?full ''xy'' 2 = Inr (- 1, ?full)" by blast
  from safe_write_spec [OF i(2) m(2), where len = 2 and data = "''xy''"] a2
  have r2: "RingBuffer_safe_write ?one ''xy'' 2 = RingBuffer_write ?one ''xy'' 2"
    and r3: "\<forall>r b'. RingBuffer_write ?one ''xy'' 2 = Inr (r, b') \<longrightarrow>
               r = 2 \<and>
               (start ?one \<noteq> length_rb ?one \<longrightarrow> start b' = start ?one) \<and>
               (start ?one = length_rb ?one \<and> (0::int) < 2 \<longrightarrow> start b' = 0) \<and>
               (start ?one \<noteq> length_rb ?one \<or> (0::int) < 2 \<longrightarrow>
                  RingBuffer_used_space b' = RingBuffer_used_space ?one + 2)"
    by blast+
  from r3 w ne have r4: "RingBuffer_used_space ?three = RingBuffer_used_space ?one + 2"
    by blast
  from i m a1 a2 r1 r2 w r4 show ?thesis by (simp only: simp_thms)
qed

text \<open>
  C6 as stated says that the delegated write never moves \<open>start\<close>. The first write into
  a fresh buffer of capacity 3 has room, is accepted, and moves \<open>start\<close> from the
  sentinel 3 to 0.
\<close>

theorem safe_write_moves_start_counterexample:
  "\<not> RingBuffer_available_space (RingBuffer_create 3) < 1 \<and>
   start (RingBuffer_create 3) = 3 \<and>
   RingBuffer_safe_write (RingBuffer_create 3) ''a'' 1
     = Inr (1, \<lparr>buffer = [CHR ''a'', CHR 0x00, CHR 0x00], length_rb = 3, start = 0, end_rb = 0\<rparr>)"
  by code_simp

text \<open>
  C7. A write of more bytes than the capacity returns the error value \<open>-1\<close> and leaves
  the whole state (indices, capacity, storage) as it was. A write of at most capacity
  bytes never returns \<open>-1\<close>; on a state satisfying the invariant, with a non-negative
  length and enough source bytes, it returns the length.
\<close>

theorem write_capacity_exceeded:
  "(length_rb b < len \<longrightarrow> RingBuffer_write b data len = Inr (- 1, b)) \<and>
   (len \<le> length_rb b \<longrightarrow> (\<forall>b'. RingBuffer_write b data len \<noteq> Inr (- 1, b'))) \<and>
   (ring_inv b \<and> 0 \<le> len \<and> len \<le> length_rb b \<and> len \<le> int (length data) \<longrightarrow>
      (\<exists>b'. RingBuffer_write b data len = Inr (len, b')))"
  using write_never_minus_one write_succeeds
  by (auto simp: RingBuffer_write_def)

theorem write_capacity_exceeded_witness:
  "RingBuffer_write (RingBuffer_create 3) ''abcd'' 4 = Inr (- 1, RingBuffer_create 3) \<and>
   (\<forall>b'. RingBuffer_write (RingBuffer_create 3) ''abc'' 3 \<noteq> Inr (- 1, b')) \<and>
   (\<exists>b'. RingBuffer_write (RingBuffer_create 3) ''abc'' 3 = Inr (3, b'))"
proof -
  have c: "length_rb (RingBuffer_create 3) = 3" "ring_inv (RingBuffer_create 3)"
    by (simp_all add: RingBuffer_create_def ring_inv_def calloc_def)
  from write_capacity_exceeded [where b = "RingBuffer_create 3" and len = 4 and data = "''abcd''"]
    write_capacity_exceeded [where b = "RingBuffer_create 3" and len = 3 and data = "''abc''"] c
  show ?thesis by simp
qed



text \<open>
  C9. In any state, \<open>clear\<close> sets both indices to the capacity, after which used space is
  0 and available space is the capacity; the storage and the capacity field are untouched.
\<close>

theorem clear_resets:
  "start (RingBuffer_clear b) = length_rb b \<and> end_rb (RingBuffer_clear b) = length_rb b \<and>
   RingBuffer_used_space (RingBuffer_clear b) = 0 \<and>
   RingBuffer_available_space (RingBuffer_clear b) = length_rb b \<and>
   buffer (RingBuffer_clear b) = buffer b \<and> length_rb (RingBuffer_clear b) = length_rb b"
  by (simp add: RingBuffer_clear_def RingBuffer_used_space_def RingBuffer_available_space_def)



end
